theory Spec2Isabelle
  imports Main "HOL-Library.Multiset" "HOL-Library.Word"
begin

section \<open>Cards (card.go)\<close>

text \<open>
  \<^verbatim>\<open>type Suit int\<close> and \<^verbatim>\<open>type Rank int\<close> are named integer types, so a value of
  either type can be any integer and not only one of the declared constants: the zero
  value \<^verbatim>\<open>Card{}\<close> has rank 0, which is none of the thirteen constants. No arithmetic is
  ever done on a suit or a rank (they are only compared and stored), so machine
  wrap-around cannot be observed and both are modelled as \<open>int\<close>.
\<close>

type_synonym Suit = int
type_synonym Rank = int

definition Spades :: Suit where [simp]: "Spades = 0"
definition Hearts :: Suit where [simp]: "Hearts = 1"
definition Diamonds :: Suit where [simp]: "Diamonds = 2"
definition Clubs :: Suit where [simp]: "Clubs = 3"

definition Ace :: Rank where [simp]: "Ace = 1"
definition Two :: Rank where [simp]: "Two = 2"
definition Three :: Rank where [simp]: "Three = 3"
definition Four :: Rank where [simp]: "Four = 4"
definition Five :: Rank where [simp]: "Five = 5"
definition Six :: Rank where [simp]: "Six = 6"
definition Seven :: Rank where [simp]: "Seven = 7"
definition Eight :: Rank where [simp]: "Eight = 8"
definition Nine :: Rank where [simp]: "Nine = 9"
definition Ten :: Rank where [simp]: "Ten = 10"
definition Jack :: Rank where [simp]: "Jack = 11"
definition Queen :: Rank where [simp]: "Queen = 12"
definition King :: Rank where [simp]: "King = 13"

text \<open>\<^verbatim>\<open>func (s Suit) String() string\<close>: a switch with a default branch.\<close>

definition Suit_String :: "Suit \<Rightarrow> string" where
  "Suit_String s =
     (if s = Spades then ''Spades''
      else if s = Hearts then ''Hearts''
      else if s = Diamonds then ''Diamonds''
      else if s = Clubs then ''Clubs''
      else ''Unknown'')"

text \<open>\<^verbatim>\<open>func (r Rank) String() string\<close>.\<close>

definition Rank_String :: "Rank \<Rightarrow> string" where
  "Rank_String r =
     (if r = Ace then ''Ace''
      else if r = Two then ''Two''
      else if r = Three then ''Three''
      else if r = Four then ''Four''
      else if r = Five then ''Five''
      else if r = Six then ''Six''
      else if r = Seven then ''Seven''
      else if r = Eight then ''Eight''
      else if r = Nine then ''Nine''
      else if r = Ten then ''Ten''
      else if r = Jack then ''Jack''
      else if r = Queen then ''Queen''
      else if r = King then ''King''
      else ''Unknown'')"

text \<open>\<^verbatim>\<open>func (r Rank) Symbol() string\<close>.\<close>

definition Rank_Symbol :: "Rank \<Rightarrow> string" where
  "Rank_Symbol r =
     (if r = Ace then ''A''
      else if r = Two then ''2''
      else if r = Three then ''3''
      else if r = Four then ''4''
      else if r = Five then ''5''
      else if r = Six then ''6''
      else if r = Seven then ''7''
      else if r = Eight then ''8''
      else if r = Nine then ''9''
      else if r = Ten then ''10''
      else if r = Jack then ''J''
      else if r = Queen then ''Q''
      else if r = King then ''K''
      else ''?'')"

text \<open>\<^verbatim>\<open>type Card struct { Suit Suit; Rank Rank }\<close>\<close>

record Card =
  Suit :: Suit
  Rank :: Rank

definition NewCard :: "Suit \<Rightarrow> Rank \<Rightarrow> Card" where
  "NewCard suit rank = \<lparr>Suit = suit, Rank = rank\<rparr>"

text \<open>The composite literal \<^verbatim>\<open>Card{}\<close>: every field has the zero value of its type.\<close>

definition Card_zero :: Card where
  "Card_zero = \<lparr>Suit = 0, Rank = 0\<rparr>"

section \<open>Decks (deck.go)\<close>

text \<open>
  \<^verbatim>\<open>type Deck struct { cards []Card }\<close>. The slice is private to the deck: every
  constructor and accessor copies (\<^verbatim>\<open>NewDeckFromCards\<close>, \<^verbatim>\<open>Cards\<close>, \<^verbatim>\<open>PeekN\<close>, \<^verbatim>\<open>DealN\<close>
  all \<^verbatim>\<open>make\<close> a fresh slice and \<^verbatim>\<open>copy\<close> into it), so no two decks and no caller share
  a backing array with a deck, and the slice is modelled by its value, the list of its
  elements. A method with a pointer receiver takes the deck and returns the deck after
  the call next to its results. A \<^verbatim>\<open>nil\<close> slice is the empty list.
\<close>

record Deck =
  cards :: "Card list"

text \<open>\<^verbatim>\<open>errors.New(msg)\<close>; a \<^verbatim>\<open>nil\<close> error is \<open>None\<close>.\<close>

datatype error = errors_New string

definition NewEmptyDeck :: Deck where
  "NewEmptyDeck = \<lparr>cards = []\<rparr>"

definition NewDeckFromCards :: "Card list \<Rightarrow> Deck" where
  "NewDeckFromCards cs = \<lparr>cards = cs\<rparr>"

definition Size :: "Deck \<Rightarrow> int" where
  "Size d = int (length (cards d))"

definition IsEmpty :: "Deck \<Rightarrow> bool" where
  "IsEmpty d = (length (cards d) = 0)"

text \<open>
  \<^verbatim>\<open>func (d *Deck) Deal() (Card, error)\<close>. The guard makes the read of index 0 and the
  reslice \<^verbatim>\<open>d.cards[1:]\<close> in range.
\<close>

definition Deal :: "Deck \<Rightarrow> (Card \<times> error option) \<times> Deck" where
  "Deal d =
     (if IsEmpty d then ((Card_zero, Some (errors_New ''cannot deal from empty deck'')), d)
      else (let card = cards d ! 0
            in ((card, None), d\<lparr>cards := drop 1 (cards d)\<rparr>)))"

text \<open>
  \<^verbatim>\<open>func NewDeck() *Deck\<close>: two nested \<^verbatim>\<open>range\<close> loops over the local slices \<^verbatim>\<open>suits\<close>
  and \<^verbatim>\<open>ranks\<close>, each iteration appending one card.
\<close>

definition NewDeck_suits :: "Suit list" where
  "NewDeck_suits = [Spades, Hearts, Diamonds, Clubs]"

definition NewDeck_ranks :: "Rank list" where
  "NewDeck_ranks =
     [Ace, Two, Three, Four, Five, Six, Seven, Eight, Nine, Ten, Jack, Queen, King]"

definition NewDeck :: Deck where
  "NewDeck =
     \<lparr>cards =
        foldl (\<lambda>cards suit.
                 foldl (\<lambda>cards rank. cards @ [NewCard suit rank]) cards NewDeck_ranks)
          [] NewDeck_suits\<rparr>"

text \<open>
  \<^verbatim>\<open>func (d *Deck) DealN(n int) ([]Card, error)\<close>. After the two guards
  \<open>0 \<le> n \<le> len\<close>, so \<^verbatim>\<open>d.cards[:n]\<close> and \<^verbatim>\<open>d.cards[n:]\<close> are in range.
\<close>

definition DealN :: "Deck \<Rightarrow> int \<Rightarrow> (Card list \<times> error option) \<times> Deck" where
  "DealN d n =
     (if n < 0 then (([], Some (errors_New ''cannot deal negative number of cards'')), d)
      else if n > int (length (cards d))
      then (([], Some (errors_New ''not enough cards in deck'')), d)
      else ((take (nat n) (cards d), None), d\<lparr>cards := drop (nat n) (cards d)\<rparr>))"

text \<open>
  The builtin \<^verbatim>\<open>copy(xs[k:], src)\<close>, as the slice \<open>xs\<close> after the call: it copies
  \<open>min (len xs - k) (len src)\<close> elements, and behaves as if \<open>src\<close> had been read before
  anything was written (the two may overlap).
\<close>

definition copy_at :: "'a list \<Rightarrow> nat \<Rightarrow> 'a list \<Rightarrow> 'a list" where
  "copy_at xs k src = take k xs @ take (length xs - k) src @ drop (k + length src) xs"

text \<open>
  \<^verbatim>\<open>func (d *Deck) InsertCard(card Card, position int) error\<close>; the parameter
  \<^verbatim>\<open>card\<close> is \<open>new_card\<close> here.
\<close>

definition InsertCard :: "Deck \<Rightarrow> Card \<Rightarrow> int \<Rightarrow> error option \<times> Deck" where
  "InsertCard d new_card position =
     (if position < 0 \<or> position > int (length (cards d))
      then (Some (errors_New ''invalid position''), d)
      else (let cs1 = cards d @ [Card_zero];
                cs2 = copy_at cs1 (nat position + 1) (drop (nat position) cs1);
                cs3 = cs2[nat position := new_card]
            in (None, d\<lparr>cards := cs3\<rparr>)))"

text \<open>\<^verbatim>\<open>func (d *Deck) Peek() (Card, error)\<close>; no statement assigns to the deck.\<close>

definition Peek :: "Deck \<Rightarrow> (Card \<times> error option) \<times> Deck" where
  "Peek d =
     (if IsEmpty d then ((Card_zero, Some (errors_New ''cannot peek at empty deck'')), d)
      else ((cards d ! 0, None), d))"

text \<open>\<^verbatim>\<open>func (d *Deck) PeekN(n int) ([]Card, error)\<close>\<close>

definition PeekN :: "Deck \<Rightarrow> int \<Rightarrow> (Card list \<times> error option) \<times> Deck" where
  "PeekN d n =
     (if n < 0 then (([], Some (errors_New ''cannot peek at negative number of cards'')), d)
      else if n > int (length (cards d))
      then (([], Some (errors_New ''not enough cards in deck'')), d)
      else ((take (nat n) (cards d), None), d))"

text \<open>
  \<^verbatim>\<open>func (d *Deck) Filter(predicate func(Card) bool) *Deck\<close>: the result is the new deck
  paired with the receiver after the call. The predicate is a pure function of the card.
\<close>

definition Filter :: "Deck \<Rightarrow> (Card \<Rightarrow> bool) \<Rightarrow> Deck \<times> Deck" where
  "Filter d predicate =
     (let filtered =
            foldl (\<lambda>filtered card. if predicate card then filtered @ [card] else filtered)
              [] (cards d)
      in (NewDeckFromCards filtered, d))"

text \<open>
  \<^verbatim>\<open>counts[k]++\<close> on a Go map: a missing key reads as 0. A count never exceeds the
  length of the slice, so the \<^verbatim>\<open>int\<close> cannot wrap.
\<close>

definition map_incr :: "('k \<rightharpoonup> int) \<Rightarrow> 'k \<Rightarrow> ('k \<rightharpoonup> int)" where
  "map_incr counts k = counts(k \<mapsto> (case counts k of None \<Rightarrow> 0 | Some v \<Rightarrow> v) + 1)"

definition CountBySuit :: "Deck \<Rightarrow> (Suit \<rightharpoonup> int)" where
  "CountBySuit d = foldl (\<lambda>counts card. map_incr counts (Suit card)) Map.empty (cards d)"

definition CountByRank :: "Deck \<Rightarrow> (Rank \<rightharpoonup> int)" where
  "CountByRank d = foldl (\<lambda>counts card. map_incr counts (Rank card)) Map.empty (cards d)"

section \<open>Shuffling\<close>

text \<open>
  \<^verbatim>\<open>Shuffle\<close> and \<^verbatim>\<open>ShuffleWithSeed\<close> draw from a generator of the standard library,
  \<^verbatim>\<open>r := rand.New(rand.NewSource(seed))\<close>, which is local to the call. The package
  \<^verbatim>\<open>math/rand\<close> is not part of the repository, so the generator is a parameter of the
  model: a type \<open>'g\<close> of generator states, \<open>NewSource\<close> building the state from a seed,
  and \<open>Intn\<close> taking a state and a bound to the number drawn and the next state. The
  seed is an \<^verbatim>\<open>int64\<close>.
\<close>

type_synonym int64 = "64 word"

text \<open>
  The loop of both methods,
  \<^verbatim>\<open>for i := len(d.cards) - 1; i > 0; i-- { j := r.Intn(i + 1); swap i j }\<close>.
  An index expression out of range panics in Go; a panic is the result \<open>None\<close>. In
  the tuple assignment both right-hand sides are read before the first store.
\<close>

function shuffle_loop ::
  "('g \<Rightarrow> int \<Rightarrow> int \<times> 'g) \<Rightarrow> int \<Rightarrow> 'g \<Rightarrow> Card list \<Rightarrow> Card list option" where
  "shuffle_loop Intn i r cs =
     (if i > 0
      then (case Intn r (i + 1) of (j, r') \<Rightarrow>
              if i < int (length cs) \<and> 0 \<le> j \<and> j < int (length cs)
              then shuffle_loop Intn (i - 1) r' (cs[nat i := cs ! nat j, nat j := cs ! nat i])
              else None)
      else Some cs)"
  by pat_completeness auto
termination
  by (relation "measure (\<lambda>(Intn, i, r, cs). nat i)") auto

declare shuffle_loop.simps [simp del]

text \<open>\<^verbatim>\<open>func (d *Deck) ShuffleWithSeed(seed int64)\<close>\<close>

definition ShuffleWithSeed ::
  "(int64 \<Rightarrow> 'g) \<Rightarrow> ('g \<Rightarrow> int \<Rightarrow> int \<times> 'g) \<Rightarrow> Deck \<Rightarrow> int64 \<Rightarrow> Deck option" where
  "ShuffleWithSeed NewSource Intn d seed =
     (let r = NewSource seed
      in map_option (\<lambda>cs. d\<lparr>cards := cs\<rparr>)
           (shuffle_loop Intn (int (length (cards d)) - 1) r (cards d)))"

text \<open>
  \<^verbatim>\<open>func (d *Deck) Shuffle()\<close>: the seed is \<^verbatim>\<open>time.Now().UnixNano()\<close>, the reading
  \<open>now\<close> of the clock at the call.
\<close>

definition Shuffle ::
  "(int64 \<Rightarrow> 'g) \<Rightarrow> ('g \<Rightarrow> int \<Rightarrow> int \<times> 'g) \<Rightarrow> int64 \<Rightarrow> Deck \<Rightarrow> Deck option" where
  "Shuffle NewSource Intn now d =
     (let r = NewSource now
      in map_option (\<lambda>cs. d\<lparr>cards := cs\<rparr>)
           (shuffle_loop Intn (int (length (cards d)) - 1) r (cards d)))"

text \<open>
  The contract of \<^verbatim>\<open>Intn\<close> in the documentation of \<^verbatim>\<open>math/rand\<close>: for \<open>n > 0\<close> the
  number drawn lies in the half-open interval from 0 to \<open>n\<close>.
\<close>

definition Intn_in_range :: "('g \<Rightarrow> int \<Rightarrow> int \<times> 'g) \<Rightarrow> bool" where
  "Intn_in_range Intn \<longleftrightarrow> (\<forall>r n. 0 < n \<longrightarrow> 0 \<le> fst (Intn r n) \<and> fst (Intn r n) < n)"

text \<open>
  A small linear congruential generator that meets the contract, to run the shuffles
  on concrete decks.
\<close>

definition lcg_NewSource :: "int64 \<Rightarrow> nat" where
  "lcg_NewSource seed = unat seed"

definition lcg_Intn :: "nat \<Rightarrow> int \<Rightarrow> int \<times> nat" where
  "lcg_Intn r n = (int r mod n, (5 * r + 3) mod 16)"

text \<open>
  Whether two calls agree is a statement about two runs, and a generator given by
  functions would make every run of the loop repeatable by the way it is written down.
  So the loop is given a second time as a relation between the start of a run and its
  outcomes, over a generator that is itself a relation: \<open>NewSource seed r\<close> holds when
  \<open>r\<close> is a state the seed may give, and \<open>Intn r n (j, r')\<close> when drawing below \<open>n\<close> in
  state \<open>r\<close> may yield \<open>j\<close> and leave the state \<open>r'\<close>. The three rules are the three
  ways through one test of the loop condition: leave the loop, swap and go on, panic
  on an index out of range.
\<close>

inductive shuffle_loop_runs ::
  "('g \<Rightarrow> int \<Rightarrow> int \<times> 'g \<Rightarrow> bool) \<Rightarrow> int \<Rightarrow> 'g \<Rightarrow> Card list \<Rightarrow> Card list option \<Rightarrow> bool"
  for Intn :: "'g \<Rightarrow> int \<Rightarrow> int \<times> 'g \<Rightarrow> bool"
where
  loop_exit: "\<not> 0 < i \<Longrightarrow> shuffle_loop_runs Intn i r cs (Some cs)"
| loop_swap:
    "0 < i \<Longrightarrow> Intn r (i + 1) (j, r') \<Longrightarrow>
     i < int (length cs) \<and> 0 \<le> j \<and> j < int (length cs) \<Longrightarrow>
     shuffle_loop_runs Intn (i - 1) r' (cs[nat i := cs ! nat j, nat j := cs ! nat i]) res \<Longrightarrow>
     shuffle_loop_runs Intn i r cs res"
| loop_panic:
    "0 < i \<Longrightarrow> Intn r (i + 1) (j, r') \<Longrightarrow>
     \<not> (i < int (length cs) \<and> 0 \<le> j \<and> j < int (length cs)) \<Longrightarrow>
     shuffle_loop_runs Intn i r cs None"

text \<open>
  \<^verbatim>\<open>ShuffleWithSeed\<close> over such a generator: the state comes from the seed passed in
  and from nothing else, and the loop runs on the deck's cards.
\<close>

inductive ShuffleWithSeed_runs ::
  "(int64 \<Rightarrow> 'g \<Rightarrow> bool) \<Rightarrow> ('g \<Rightarrow> int \<Rightarrow> int \<times> 'g \<Rightarrow> bool) \<Rightarrow> Deck \<Rightarrow> int64 \<Rightarrow> Deck option \<Rightarrow> bool"
  for NewSource :: "int64 \<Rightarrow> 'g \<Rightarrow> bool" and Intn :: "'g \<Rightarrow> int \<Rightarrow> int \<times> 'g \<Rightarrow> bool"
where
  run:
    "NewSource seed r \<Longrightarrow>
     shuffle_loop_runs Intn (int (length (cards d)) - 1) r (cards d) res \<Longrightarrow>
     ShuffleWithSeed_runs NewSource Intn d seed (map_option (\<lambda>cs. d\<lparr>cards := cs\<rparr>) res)"

code_pred shuffle_loop_runs .
code_pred ShuffleWithSeed_runs .

text \<open>
  A generator is deterministic when a seed gives one state and a draw has one outcome,
  which is what the documentation of \<^verbatim>\<open>math/rand\<close> promises for a source built from a
  seed; it is total and in range when every seed gives a state and every draw below
  \<open>n > 0\<close> has an outcome, each of them from 0 up to \<open>n - 1\<close>.
\<close>

definition generator_deterministic ::
  "(int64 \<Rightarrow> 'g \<Rightarrow> bool) \<Rightarrow> ('g \<Rightarrow> int \<Rightarrow> int \<times> 'g \<Rightarrow> bool) \<Rightarrow> bool" where
  "generator_deterministic NewSource Intn \<longleftrightarrow>
     (\<forall>seed r1 r2. NewSource seed r1 \<longrightarrow> NewSource seed r2 \<longrightarrow> r1 = r2) \<and>
     (\<forall>r n out1 out2. Intn r n out1 \<longrightarrow> Intn r n out2 \<longrightarrow> out1 = out2)"

definition generator_total_in_range ::
  "(int64 \<Rightarrow> 'g \<Rightarrow> bool) \<Rightarrow> ('g \<Rightarrow> int \<Rightarrow> int \<times> 'g \<Rightarrow> bool) \<Rightarrow> bool" where
  "generator_total_in_range NewSource Intn \<longleftrightarrow>
     (\<forall>seed. \<exists>r. NewSource seed r) \<and>
     (\<forall>r n. 0 < n \<longrightarrow>
        (\<exists>out. Intn r n out) \<and> (\<forall>j r'. Intn r n (j, r') \<longrightarrow> 0 \<le> j \<and> j < n))"

section \<open>Sorting\<close>

text \<open>
  \<^verbatim>\<open>func (d *Deck) Sort()\<close> is a bubble sort in two nested loops. The counters \<open>i\<close> and
  \<open>j\<close> start at 0 and only grow, so they are naturals; the loop guards are computed in
  \<open>int\<close> as in the source, where \<^verbatim>\<open>len(d.cards) - 1\<close> is -1 on the empty deck. The guard
  of the inner loop gives \<open>j + 1 < len - i\<close>, so both reads and both stores are in range.
\<close>

function Sort_inner :: "nat \<Rightarrow> nat \<Rightarrow> Card list \<Rightarrow> Card list" where
  "Sort_inner i j cs =
     (if int j < int (length cs) - int i - 1
      then (let card1 = cs ! j; card2 = cs ! (j + 1)
            in Sort_inner i (j + 1)
                 (if Suit card1 > Suit card2 \<or> (Suit card1 = Suit card2 \<and> Rank card1 > Rank card2)
                  then cs[j := cs ! (j + 1), j + 1 := cs ! j]
                  else cs))
      else cs)"
  by pat_completeness auto
termination
  by (relation "measure (\<lambda>(i, j, cs). length cs - i - 1 - j)") auto

declare Sort_inner.simps [simp del]

lemma length_Sort_inner: "length (Sort_inner i j cs) = length cs"
  by (induction i j cs rule: Sort_inner.induct)
    (subst Sort_inner.simps, simp add: Let_def)

function Sort_outer :: "nat \<Rightarrow> Card list \<Rightarrow> Card list" where
  "Sort_outer i cs =
     (if int i < int (length cs) - 1 then Sort_outer (i + 1) (Sort_inner i 0 cs) else cs)"
  by pat_completeness auto
termination
  by (relation "measure (\<lambda>(i, cs). length cs - i)") (auto simp: length_Sort_inner)

declare Sort_outer.simps [simp del]

definition Sort :: "Deck \<Rightarrow> Deck" where
  "Sort d = d\<lparr>cards := Sort_outer 0 (cards d)\<rparr>"

text \<open>
  The order the specification states for a sorted deck: by suit, ties broken by rank.
  On the declared constants it is Spades < Hearts < Diamonds < Clubs and
  Ace < Two < ... < King, the order of the integers behind them.
\<close>

definition card_le :: "Card \<Rightarrow> Card \<Rightarrow> bool" where
  "card_le a b = (Suit a < Suit b \<or> (Suit a = Suit b \<and> Rank a \<le> Rank b))"

text \<open>
  What the outer loop of \<^verbatim>\<open>Sort\<close> keeps true: the last \<open>i\<close> cards are in order and
  none of them is below a card before them.
\<close>

definition tail_sorted :: "nat \<Rightarrow> Card list \<Rightarrow> bool" where
  "tail_sorted i cs \<longleftrightarrow>
     i \<le> length cs \<and>
     sorted_wrt card_le (drop (length cs - i) cs) \<and>
     (\<forall>x\<in>set (take (length cs - i) cs). \<forall>y\<in>set (drop (length cs - i) cs). card_le x y)"

section \<open>Dealing one card\<close>

text \<open>
  C4. On a deck of size n > 0, Deal succeeds (the error is nil), returns the card that
  was at index 0 and leaves the former sequence without its first element, of size
  n - 1. On the empty deck it fails; the error is the one the specification calls
  EmptyDeck, which the code creates with the message "cannot deal from empty deck".
\<close>

theorem Deal_spec:
  "(0 < Size d \<longrightarrow>
      snd (fst (Deal d)) = None \<and>
      fst (fst (Deal d)) = hd (cards d) \<and>
      fst (fst (Deal d)) = cards d ! 0 \<and>
      cards (snd (Deal d)) = tl (cards d) \<and>
      Size (snd (Deal d)) = Size d - 1) \<and>
   (Size d = 0 \<longrightarrow>
      snd (fst (Deal d)) = Some (errors_New ''cannot deal from empty deck''))"
  by (cases "cards d") (simp_all add: Deal_def IsEmpty_def Size_def drop_Suc)

theorem Deal_spec_witness:
  "0 < Size \<lparr>cards = [NewCard Hearts Ace, NewCard Clubs Ten]\<rparr> \<and>
   Deal \<lparr>cards = [NewCard Hearts Ace, NewCard Clubs Ten]\<rparr> =
     ((NewCard Hearts Ace, None), \<lparr>cards = [NewCard Clubs Ten]\<rparr>) \<and>
   Size NewEmptyDeck = 0 \<and>
   snd (fst (Deal NewEmptyDeck)) = Some (errors_New ''cannot deal from empty deck'')"
  using Deal_spec [of "\<lparr>cards = [NewCard Hearts Ace, NewCard Clubs Ten]\<rparr>"]
    Deal_spec [of NewEmptyDeck]
  by (simp add: Deal_def IsEmpty_def Size_def NewEmptyDeck_def)

section \<open>Errors leave the deck as it was\<close>

text \<open>
  C2. Whenever DealN, Deal or InsertCard returns an error (a non-nil error value), the
  deck after the call is the deck before the call.
\<close>

theorem error_atomicity:
  "(snd (fst (DealN d n)) \<noteq> None \<longrightarrow> snd (DealN d n) = d) \<and>
   (snd (fst (Deal d)) \<noteq> None \<longrightarrow> snd (Deal d) = d) \<and>
   (fst (InsertCard d c p) \<noteq> None \<longrightarrow> snd (InsertCard d c p) = d)"
  by (simp add: DealN_def Deal_def InsertCard_def Let_def)

theorem error_atomicity_witness:
  "snd (fst (DealN \<lparr>cards = [NewCard Hearts Ace, NewCard Clubs Ten]\<rparr> 3)) =
     Some (errors_New ''not enough cards in deck'') \<and>
   snd (DealN \<lparr>cards = [NewCard Hearts Ace, NewCard Clubs Ten]\<rparr> 3) =
     \<lparr>cards = [NewCard Hearts Ace, NewCard Clubs Ten]\<rparr> \<and>
   snd (fst (Deal \<lparr>cards = []\<rparr>)) = Some (errors_New ''cannot deal from empty deck'') \<and>
   snd (Deal \<lparr>cards = []\<rparr>) = \<lparr>cards = []\<rparr> \<and>
   fst (InsertCard \<lparr>cards = [NewCard Hearts Ace, NewCard Clubs Ten]\<rparr> (NewCard Spades Two) 3) =
     Some (errors_New ''invalid position'') \<and>
   snd (InsertCard \<lparr>cards = [NewCard Hearts Ace, NewCard Clubs Ten]\<rparr> (NewCard Spades Two) 3) =
     \<lparr>cards = [NewCard Hearts Ace, NewCard Clubs Ten]\<rparr>"
  using error_atomicity [of "\<lparr>cards = [NewCard Hearts Ace, NewCard Clubs Ten]\<rparr>" 3
      "NewCard Spades Two" 3]
    error_atomicity [of "\<lparr>cards = []\<rparr>" 0 "NewCard Spades Two" 0]
  by (simp add: DealN_def Deal_def InsertCard_def IsEmpty_def)

text \<open>
  On a position within range, the three statements of InsertCard (append a zero card,
  shift the tail with \<^verbatim>\<open>copy\<close>, store the card) put the card in front of the card
  that was at that position.
\<close>

lemma InsertCard_inserts:
  assumes "0 \<le> p" "p \<le> int (length (cards d))"
  shows "InsertCard d c p =
           (None, d\<lparr>cards := take (nat p) (cards d) @ c # drop (nat p) (cards d)\<rparr>)"
proof -
  define k where "k = nat p"
  define cs where "cs = cards d"
  define cs1 where "cs1 = cs @ [Card_zero]"
  have k: "k \<le> length cs" using assms by (simp add: k_def cs_def)
  have l1: "length cs1 = Suc (length cs)" by (simp add: cs1_def)
  have tk: "take k cs1 = take k cs" using k by (simp add: cs1_def)
  have "take (Suc k) cs1 = take k cs1 @ [cs1 ! k]"
    by (rule take_Suc_conv_app_nth) (use k l1 in simp)
  then have t: "take (k + 1) cs1 = take k cs @ [cs1 ! k]" by (simp add: tk)
  have dk: "take (length cs1 - (k + 1)) (drop k cs1) = drop k cs"
    using k by (simp add: cs1_def)
  have dd: "drop (k + 1 + length (drop k cs1)) cs1 = []"
    using k by (simp add: l1)
  have "copy_at cs1 (k + 1) (drop k cs1) = take k cs @ cs1 ! k # drop k cs"
    unfolding copy_at_def t dk dd by simp
  then have "(copy_at cs1 (k + 1) (drop k cs1))[k := c] = take k cs @ c # drop k cs"
    using k by (simp add: list_update_append)
  then show ?thesis
    using assms by (simp add: InsertCard_def Let_def flip: k_def cs_def cs1_def)
qed

section \<open>The full deck\<close>

text \<open>
  C3. NewDeck holds exactly 52 cards: the suits in the order Spades, Hearts, Diamonds,
  Clubs and, within each suit, the ranks ascending from Ace to King. No card occurs
  twice; a card occurs (once) exactly when its suit is one of the four suits and its
  rank one of the thirteen ranks; each suit has 13 cards and each rank has 4.
\<close>

theorem NewDeck_spec:
  "cards NewDeck =
     concat (map (\<lambda>s. map (\<lambda>r. \<lparr>Suit = s, Rank = r\<rparr>)
                    [Ace, Two, Three, Four, Five, Six, Seven, Eight, Nine, Ten, Jack, Queen, King])
               [Spades, Hearts, Diamonds, Clubs]) \<and>
   Size NewDeck = 52 \<and>
   distinct (cards NewDeck) \<and>
   count_list (cards NewDeck) \<lparr>Suit = s, Rank = r\<rparr> =
     (if s \<in> {Spades, Hearts, Diamonds, Clubs} \<and> Ace \<le> r \<and> r \<le> King then 1 else 0) \<and>
   map (\<lambda>s. length (filter (\<lambda>c. Suit c = s) (cards NewDeck)))
     [Spades, Hearts, Diamonds, Clubs] = [13, 13, 13, 13] \<and>
   map (\<lambda>r. length (filter (\<lambda>c. Rank c = r) (cards NewDeck)))
     [Ace, Two, Three, Four, Five, Six, Seven, Eight, Nine, Ten, Jack, Queen, King] =
     [4, 4, 4, 4, 4, 4, 4, 4, 4, 4, 4, 4, 4]"
proof -
  have cs: "cards NewDeck =
     concat (map (\<lambda>s. map (\<lambda>r. \<lparr>Suit = s, Rank = r\<rparr>)
                    [Ace, Two, Three, Four, Five, Six, Seven, Eight, Nine, Ten, Jack, Queen, King])
               [Spades, Hearts, Diamonds, Clubs])"
    by (simp add: NewDeck_def NewDeck_suits_def NewDeck_ranks_def NewCard_def)
  have sz: "Size NewDeck = 52"
    by (simp add: Size_def cs)
  have di: "distinct (cards NewDeck)"
    by (simp add: cs)
  have cn: "count_list (cards NewDeck) \<lparr>Suit = s, Rank = r\<rparr> =
     (if s \<in> {Spades, Hearts, Diamonds, Clubs} \<and> Ace \<le> r \<and> r \<le> King then 1 else 0)"
    unfolding cs by simp presburger
  have su: "map (\<lambda>s. length (filter (\<lambda>c. Suit c = s) (cards NewDeck)))
     [Spades, Hearts, Diamonds, Clubs] = [13, 13, 13, 13]"
    by (simp add: cs)
  have ra: "map (\<lambda>r. length (filter (\<lambda>c. Rank c = r) (cards NewDeck)))
     [Ace, Two, Three, Four, Five, Six, Seven, Eight, Nine, Ten, Jack, Queen, King] =
     [4, 4, 4, 4, 4, 4, 4, 4, 4, 4, 4, 4, 4]"
    by (simp add: cs)
  from cs sz di cn su ra show ?thesis by blast
qed

section \<open>Looking at the top cards\<close>

text \<open>
  C7. PeekN fails when n < 0 (the specification's InvalidCount: the error with the
  message "cannot peek at negative number of cards"), fails when n > Size (the
  specification's InsufficientCards: "not enough cards in deck"), and otherwise
  succeeds with the first n cards in order, which is the empty sequence for n = 0.
  In every case the deck after the call is the deck before it.
\<close>

theorem PeekN_spec:
  "(n < 0 \<longrightarrow>
      fst (PeekN d n) = ([], Some (errors_New ''cannot peek at negative number of cards''))) \<and>
   (n > Size d \<longrightarrow> fst (PeekN d n) = ([], Some (errors_New ''not enough cards in deck''))) \<and>
   (0 \<le> n \<and> n \<le> Size d \<longrightarrow> fst (PeekN d n) = (take (nat n) (cards d), None)) \<and>
   fst (PeekN d 0) = ([], None) \<and>
   snd (PeekN d n) = d"
  by (simp add: PeekN_def Size_def)

theorem PeekN_spec_witness:
  "(-1::int) < 0 \<and>
   PeekN \<lparr>cards = [NewCard Hearts Ace, NewCard Clubs Ten, NewCard Spades Two]\<rparr> (-1) =
     (([], Some (errors_New ''cannot peek at negative number of cards'')),
      \<lparr>cards = [NewCard Hearts Ace, NewCard Clubs Ten, NewCard Spades Two]\<rparr>) \<and>
   4 > Size \<lparr>cards = [NewCard Hearts Ace, NewCard Clubs Ten, NewCard Spades Two]\<rparr> \<and>
   PeekN \<lparr>cards = [NewCard Hearts Ace, NewCard Clubs Ten, NewCard Spades Two]\<rparr> 4 =
     (([], Some (errors_New ''not enough cards in deck'')),
      \<lparr>cards = [NewCard Hearts Ace, NewCard Clubs Ten, NewCard Spades Two]\<rparr>) \<and>
   2 \<le> Size \<lparr>cards = [NewCard Hearts Ace, NewCard Clubs Ten, NewCard Spades Two]\<rparr> \<and>
   PeekN \<lparr>cards = [NewCard Hearts Ace, NewCard Clubs Ten, NewCard Spades Two]\<rparr> 2 =
     (([NewCard Hearts Ace, NewCard Clubs Ten], None),
      \<lparr>cards = [NewCard Hearts Ace, NewCard Clubs Ten, NewCard Spades Two]\<rparr>)"
  using
    PeekN_spec [of "-1" "\<lparr>cards = [NewCard Hearts Ace, NewCard Clubs Ten, NewCard Spades Two]\<rparr>"]
    PeekN_spec [of 4 "\<lparr>cards = [NewCard Hearts Ace, NewCard Clubs Ten, NewCard Spades Two]\<rparr>"]
    PeekN_spec [of 2 "\<lparr>cards = [NewCard Hearts Ace, NewCard Clubs Ten, NewCard Spades Two]\<rparr>"]
  by (simp add: PeekN_def Size_def)

section \<open>Filtering\<close>

lemma Filter_loop:
  "foldl (\<lambda>filtered card. if p card then filtered @ [card] else filtered) acc xs
     = acc @ filter p xs"
  by (induction xs arbitrary: acc) simp_all

text \<open>
  C8. Filter returns a new deck whose sequence is the subsequence of the receiver's
  cards that satisfy the predicate, in their original relative order: every card of the
  result satisfies the predicate, and the result has as many cards as the receiver has
  matching ones. The receiver after the call is the receiver before it.
\<close>

theorem Filter_spec:
  "cards (fst (Filter d p)) = filter p (cards d) \<and>
   (\<forall>c \<in> set (cards (fst (Filter d p))). p c) \<and>
   Size (fst (Filter d p)) = int (length (filter p (cards d))) \<and>
   snd (Filter d p) = d"
  by (simp add: Filter_def Filter_loop NewDeckFromCards_def Size_def)

theorem Filter_spec_witness:
  "Filter \<lparr>cards = [NewCard Hearts Ace, NewCard Clubs Ten, NewCard Hearts King]\<rparr>
      (\<lambda>c. Suit c = Hearts) =
     (\<lparr>cards = [NewCard Hearts Ace, NewCard Hearts King]\<rparr>,
      \<lparr>cards = [NewCard Hearts Ace, NewCard Clubs Ten, NewCard Hearts King]\<rparr>) \<and>
   Suit (NewCard Hearts Ace) = Hearts \<and> Suit (NewCard Hearts King) = Hearts"
  using Filter_spec [of "\<lparr>cards = [NewCard Hearts Ace, NewCard Clubs Ten, NewCard Hearts King]\<rparr>"
      "\<lambda>c. Suit c = Hearts"]
  by (simp add: Filter_def NewDeckFromCards_def NewCard_def)

section \<open>The card returned with an error\<close>

text \<open>
  C9, amended. When Deal or Peek fails (which is exactly on the empty deck), the card
  returned next to the error is the zero value Card{}: its suit is Spades and its rank
  is 0, which is none of the thirteen ranks Ace to King; the rank's String is "Unknown"
  and its Symbol is "?". It is a constant that does not depend on the deck. It is no
  card of the full deck, nor of any sequence of cards whose ranks are all among the
  thirteen.
\<close>

theorem failed_Deal_Peek_card:
  "(IsEmpty d \<longrightarrow>
      snd (fst (Deal d)) \<noteq> None \<and> fst (fst (Deal d)) = Card_zero \<and>
      snd (fst (Peek d)) \<noteq> None \<and> fst (fst (Peek d)) = Card_zero) \<and>
   (snd (fst (Deal d)) \<noteq> None \<longrightarrow> IsEmpty d \<and> fst (fst (Deal d)) = Card_zero) \<and>
   (snd (fst (Peek d)) \<noteq> None \<longrightarrow> IsEmpty d \<and> fst (fst (Peek d)) = Card_zero) \<and>
   Card_zero = \<lparr>Suit = Spades, Rank = 0\<rparr> \<and>
   Rank Card_zero \<notin>
     {Ace, Two, Three, Four, Five, Six, Seven, Eight, Nine, Ten, Jack, Queen, King} \<and>
   Rank_String (Rank Card_zero) = ''Unknown'' \<and>
   Rank_Symbol (Rank Card_zero) = ''?'' \<and>
   Card_zero \<notin> set (cards NewDeck) \<and>
   ((\<forall>c\<in>set cs. Rank c \<in>
        {Ace, Two, Three, Four, Five, Six, Seven, Eight, Nine, Ten, Jack, Queen, King}) \<longrightarrow>
      Card_zero \<notin> set cs)"
proof -
  have valid: "(\<forall>c\<in>set cs. Rank c \<in>
        {Ace, Two, Three, Four, Five, Six, Seven, Eight, Nine, Ten, Jack, Queen, King}) \<longrightarrow>
      Card_zero \<notin> set cs"
  proof (intro impI notI)
    assume all: "\<forall>c\<in>set cs. Rank c \<in>
        {Ace, Two, Three, Four, Five, Six, Seven, Eight, Nine, Ten, Jack, Queen, King}"
      and "Card_zero \<in> set cs"
    then have "Rank Card_zero \<in>
        {Ace, Two, Three, Four, Five, Six, Seven, Eight, Nine, Ten, Jack, Queen, King}"
      by blast
    then show False by (simp add: Card_zero_def)
  qed
  show ?thesis
    using valid
    by (simp add: Deal_def Peek_def Card_zero_def Rank_String_def Rank_Symbol_def
        NewDeck_def NewDeck_suits_def NewDeck_ranks_def NewCard_def)
qed

theorem failed_Deal_Peek_card_witness:
  "IsEmpty NewEmptyDeck \<and>
   Deal NewEmptyDeck =
     ((\<lparr>Suit = 0, Rank = 0\<rparr>, Some (errors_New ''cannot deal from empty deck'')), NewEmptyDeck) \<and>
   Peek NewEmptyDeck =
     ((\<lparr>Suit = 0, Rank = 0\<rparr>, Some (errors_New ''cannot peek at empty deck'')), NewEmptyDeck) \<and>
   Rank (NewCard Hearts Ace) = Ace \<and> Rank (NewCard Clubs Ten) = Ten \<and>
   Card_zero \<notin> set [NewCard Hearts Ace, NewCard Clubs Ten]"
  using failed_Deal_Peek_card [of NewEmptyDeck "[NewCard Hearts Ace, NewCard Clubs Ten]"]
  by (simp add: Deal_def Peek_def Card_zero_def IsEmpty_def NewEmptyDeck_def NewCard_def)

text \<open>
  C9 as first stated also says that the card returned with the error is not any card
  that was ever in the deck. A deck may hold any cards, the zero card among them:
  NewDeckFromCards copies what it is given. On the deck made of the single card Card{},
  the first Deal succeeds and empties the deck, and the second Deal (or a Peek) fails
  and returns Card{}, which is the card that was in the deck.
\<close>

theorem failed_Deal_returns_card_of_deck:
  "Card_zero \<in> set (cards (NewDeckFromCards [Card_zero])) \<and>
   Deal (NewDeckFromCards [Card_zero]) = ((Card_zero, None), NewEmptyDeck) \<and>
   Deal (snd (Deal (NewDeckFromCards [Card_zero]))) =
     ((Card_zero, Some (errors_New ''cannot deal from empty deck'')), NewEmptyDeck) \<and>
   Peek (snd (Deal (NewDeckFromCards [Card_zero]))) =
     ((Card_zero, Some (errors_New ''cannot peek at empty deck'')), NewEmptyDeck) \<and>
   fst (fst (Deal (snd (Deal (NewDeckFromCards [Card_zero]))))) \<in>
     set (cards (NewDeckFromCards [Card_zero]))"
  by (simp add: Deal_def Peek_def IsEmpty_def NewDeckFromCards_def NewEmptyDeck_def)

section \<open>Counting\<close>

lemma map_incr_dom: "dom (map_incr m x) = insert x (dom m)"
  by (simp add: map_incr_def)

lemma map_incr_sum:
  assumes "finite (dom m)"
  shows "(\<Sum>k\<in>dom (map_incr m x). the (map_incr m x k)) = (\<Sum>k\<in>dom m. the (m k)) + 1"
proof (cases "m x")
  case None
  then have nin: "x \<notin> dom m" by (simp add: domIff)
  have "(\<Sum>k\<in>dom m. the (map_incr m x k)) = (\<Sum>k\<in>dom m. the (m k))"
    using nin by (intro sum.cong) (auto simp: map_incr_def)
  then show ?thesis
    using assms nin None by (simp add: map_incr_dom) (simp add: map_incr_def)
next
  case (Some v)
  then have xin: "x \<in> dom m" by (simp add: domIff)
  then have d: "insert x (dom m) = dom m" by auto
  have rest: "(\<Sum>k\<in>dom m - {x}. the (map_incr m x k)) = (\<Sum>k\<in>dom m - {x}. the (m k))"
    by (intro sum.cong) (auto simp: map_incr_def)
  have "(\<Sum>k\<in>dom m. the (map_incr m x k))
          = the (map_incr m x x) + (\<Sum>k\<in>dom m - {x}. the (map_incr m x k))"
    using assms xin by (rule sum.remove)
  also have "\<dots> = (v + 1) + (\<Sum>k\<in>dom m - {x}. the (m k))"
    using Some rest by (simp add: map_incr_def)
  also have "\<dots> = (the (m x) + (\<Sum>k\<in>dom m - {x}. the (m k))) + 1"
    using Some by simp
  also have "the (m x) + (\<Sum>k\<in>dom m - {x}. the (m k)) = (\<Sum>k\<in>dom m. the (m k))"
    using assms xin by (rule sum.remove [symmetric])
  finally show ?thesis by (simp add: map_incr_dom d)
qed

lemma map_incr_pos:
  assumes "\<forall>k v. m k = Some v \<longrightarrow> 0 < v"
  shows "\<forall>k v. map_incr m x k = Some v \<longrightarrow> 0 < v"
  using assms by (auto simp: map_incr_def split: option.splits if_splits) fastforce

lemma count_loop:
  assumes "finite (dom m)"
  shows "finite (dom (foldl (\<lambda>counts card. map_incr counts (f card)) m cs)) \<and>
         (\<Sum>k\<in>dom (foldl (\<lambda>counts card. map_incr counts (f card)) m cs).
             the (foldl (\<lambda>counts card. map_incr counts (f card)) m cs k))
           = (\<Sum>k\<in>dom m. the (m k)) + int (length cs)"
  using assms
proof (induction cs arbitrary: m)
  case Nil
  then show ?case by simp
next
  case (Cons c cs)
  have fin: "finite (dom (map_incr m (f c)))"
    using Cons.prems by (simp add: map_incr_dom)
  show ?case
    using Cons.IH [OF fin] map_incr_sum [OF Cons.prems, of "f c"] by simp
qed

lemma count_loop_pos:
  assumes "\<forall>k v. m k = Some v \<longrightarrow> 0 < v"
  shows "\<forall>k v. foldl (\<lambda>counts card. map_incr counts (f card)) m cs k = Some v \<longrightarrow> 0 < v"
  using assms
proof (induction cs arbitrary: m)
  case Nil
  then show ?case by simp
next
  case (Cons c cs)
  show ?case
    using Cons.IH [OF map_incr_pos [OF Cons.prems, of "f c"]] by simp
qed

text \<open>
  C10. The values of the map returned by CountBySuit add up to Size, and so do the
  values of the map returned by CountByRank; every key present in either map has a
  strictly positive count.
\<close>

theorem counts_sum_to_Size:
  "(\<Sum>k\<in>dom (CountBySuit d). the (CountBySuit d k)) = Size d \<and>
   (\<Sum>k\<in>dom (CountByRank d). the (CountByRank d k)) = Size d \<and>
   (\<forall>k v. CountBySuit d k = Some v \<longrightarrow> 0 < v) \<and>
   (\<forall>k v. CountByRank d k = Some v \<longrightarrow> 0 < v)"
  using count_loop [of Map.empty Suit "cards d"] count_loop [of Map.empty Rank "cards d"]
    count_loop_pos [of Map.empty Suit "cards d"] count_loop_pos [of Map.empty Rank "cards d"]
  by (simp add: CountBySuit_def CountByRank_def Size_def)

theorem counts_sum_to_Size_witness:
  "CountBySuit \<lparr>cards = [NewCard Hearts Ace, NewCard Clubs Ten, NewCard Hearts King]\<rparr> Hearts
     = Some 2 \<and>
   CountByRank \<lparr>cards = [NewCard Hearts Ace, NewCard Clubs Ten, NewCard Hearts King]\<rparr> Ten
     = Some 1 \<and>
   (\<Sum>k\<in>dom (CountBySuit \<lparr>cards = [NewCard Hearts Ace, NewCard Clubs Ten, NewCard Hearts King]\<rparr>).
      the (CountBySuit \<lparr>cards = [NewCard Hearts Ace, NewCard Clubs Ten, NewCard Hearts King]\<rparr> k))
     = 3"
  using counts_sum_to_Size
    [of "\<lparr>cards = [NewCard Hearts Ace, NewCard Clubs Ten, NewCard Hearts King]\<rparr>"]
  by (simp add: CountBySuit_def CountByRank_def map_incr_def NewCard_def Size_def)

section \<open>Sort orders the deck\<close>

lemma card_le_total: "card_le a b \<or> card_le b a"
  by (auto simp: card_le_def)

lemma card_le_trans: "card_le a b \<Longrightarrow> card_le b c \<Longrightarrow> card_le a c"
  by (auto simp: card_le_def)

lemma swap_iff: "(Suit a > Suit b \<or> (Suit a = Suit b \<and> Rank a > Rank b)) \<longleftrightarrow> \<not> card_le a b"
  by (auto simp: card_le_def)

lemma Sort_inner_step:
  "int j < int (length cs) - int i - 1 \<Longrightarrow>
   Sort_inner i j cs =
     Sort_inner i (j + 1)
       (if Suit (cs ! j) > Suit (cs ! (j + 1)) \<or>
           (Suit (cs ! j) = Suit (cs ! (j + 1)) \<and> Rank (cs ! j) > Rank (cs ! (j + 1)))
        then cs[j := cs ! (j + 1), j + 1 := cs ! j] else cs)"
  by (subst Sort_inner.simps) (simp add: Let_def split del: if_split)

lemma Sort_inner_stop:
  "\<not> int j < int (length cs) - int i - 1 \<Longrightarrow> Sort_inner i j cs = cs"
  by (subst Sort_inner.simps) simp

lemma mset_Sort_inner: "mset (Sort_inner i j cs) = mset cs"
proof (induction i j cs rule: Sort_inner.induct)
  case (1 i j cs)
  show ?case
  proof (cases "int j < int (length cs) - int i - 1")
    case True
    let ?cs' = "if Suit (cs ! j) > Suit (cs ! (j + 1)) \<or>
           (Suit (cs ! j) = Suit (cs ! (j + 1)) \<and> Rank (cs ! j) > Rank (cs ! (j + 1)))
        then cs[j := cs ! (j + 1), j + 1 := cs ! j] else cs"
    from True have "j < length cs" "j + 1 < length cs" by auto
    then have "mset (cs[j := cs ! (j + 1), j + 1 := cs ! j]) = mset cs"
      using mset_swap [of "j + 1" cs j] by simp
    then have "mset ?cs' = mset cs" by simp
    moreover have "mset (Sort_inner i (j + 1) ?cs') = mset ?cs'"
      by (rule "1.IH" [OF True refl refl])
    ultimately show ?thesis
      by (simp only: Sort_inner_step [OF True])
  next
    case False
    then show ?thesis by (simp add: Sort_inner_stop)
  qed
qed

lemma drop_Sort_inner:
  "drop (length cs - i) (Sort_inner i j cs) = drop (length cs - i) cs"
proof (induction i j cs rule: Sort_inner.induct)
  case (1 i j cs)
  show ?case
  proof (cases "int j < int (length cs) - int i - 1")
    case True
    let ?cs' = "if Suit (cs ! j) > Suit (cs ! (j + 1)) \<or>
           (Suit (cs ! j) = Suit (cs ! (j + 1)) \<and> Rank (cs ! j) > Rank (cs ! (j + 1)))
        then cs[j := cs ! (j + 1), j + 1 := cs ! j] else cs"
    have len: "length ?cs' = length cs" by simp
    from True have "j < length cs - i" "j + 1 < length cs - i" by auto
    then have "drop (length cs - i) (cs[j := cs ! (j + 1), j + 1 := cs ! j])
                 = drop (length cs - i) cs"
      by simp
    then have "drop (length cs - i) ?cs' = drop (length cs - i) cs" by simp
    moreover have "drop (length ?cs' - i) (Sort_inner i (j + 1) ?cs') = drop (length ?cs' - i) ?cs'"
      by (rule "1.IH" [OF True refl refl])
    ultimately show ?thesis
      by (simp only: Sort_inner_step [OF True] len)
  next
    case False
    then show ?thesis by (simp add: Sort_inner_stop)
  qed
qed

lemma mset_take_Sort_inner:
  "mset (take (length cs - i) (Sort_inner i j cs)) = mset (take (length cs - i) cs)"
proof -
  have "mset (take (length cs - i) (Sort_inner i j cs))
          + mset (drop (length cs - i) (Sort_inner i j cs))
      = mset (take (length cs - i) cs) + mset (drop (length cs - i) cs)"
    by (simp add: mset_Sort_inner flip: mset_append)
  then show ?thesis by (simp add: drop_Sort_inner)
qed

lemma max_Sort_inner:
  assumes "i + 1 \<le> length cs" "j \<le> length cs - i - 1" "\<forall>k<j. card_le (cs ! k) (cs ! j)"
  shows "\<forall>k < length cs - i - 1.
           card_le (Sort_inner i j cs ! k) (Sort_inner i j cs ! (length cs - i - 1))"
  using assms
proof (induction i j cs rule: Sort_inner.induct)
  case (1 i j cs)
  show ?case
  proof (cases "int j < int (length cs) - int i - 1")
    case True
    define cs' where "cs' =
       (if Suit (cs ! j) > Suit (cs ! (j + 1)) \<or>
           (Suit (cs ! j) = Suit (cs ! (j + 1)) \<and> Rank (cs ! j) > Rank (cs ! (j + 1)))
        then cs[j := cs ! (j + 1), j + 1 := cs ! j] else cs)"
    have len: "length cs' = length cs" by (simp add: cs'_def)
    have jl: "j < length cs" "j + 1 < length cs" "j + 1 \<le> length cs - i - 1"
      using True by auto
    have P: "\<forall>k<j + 1. card_le (cs' ! k) (cs' ! (j + 1))"
    proof (intro allI impI)
      fix k assume k: "k < j + 1"
      show "card_le (cs' ! k) (cs' ! (j + 1))"
      proof (cases "card_le (cs ! j) (cs ! (j + 1))")
        case True
        then have same: "cs' = cs" by (simp add: cs'_def swap_iff)
        show ?thesis
        proof (cases "k = j")
          case True
          with \<open>card_le (cs ! j) (cs ! (j + 1))\<close> show ?thesis by (simp only: same)
        next
          case False
          with k have "k < j" by simp
          with "1.prems"(3) have "card_le (cs ! k) (cs ! j)" by simp
          with \<open>card_le (cs ! j) (cs ! (j + 1))\<close> have "card_le (cs ! k) (cs ! (j + 1))"
            by (rule card_le_trans [rotated])
          then show ?thesis by (simp only: same)
        qed
      next
        case False
        then have sw: "cs' = cs[j := cs ! (j + 1), j + 1 := cs ! j]"
          by (simp add: cs'_def swap_iff)
        from False have rev: "card_le (cs ! (j + 1)) (cs ! j)" using card_le_total by blast
        show ?thesis
        proof (cases "k = j")
          case True
          with rev jl show ?thesis by (simp add: sw)
        next
          case False
          with k have "k < j" by simp
          with "1.prems"(3) have "card_le (cs ! k) (cs ! j)" by simp
          with jl \<open>k < j\<close> show ?thesis by (simp add: sw)
        qed
      qed
    qed
    have IH: "i + 1 \<le> length cs' \<Longrightarrow> j + 1 \<le> length cs' - i - 1 \<Longrightarrow>
          \<forall>k<j + 1. card_le (cs' ! k) (cs' ! (j + 1)) \<Longrightarrow>
          \<forall>k<length cs' - i - 1.
            card_le (Sort_inner i (j + 1) cs' ! k)
              (Sort_inner i (j + 1) cs' ! (length cs' - i - 1))"
      unfolding cs'_def by (rule "1.IH" [OF True refl refl])
    have "\<forall>k<length cs' - i - 1.
            card_le (Sort_inner i (j + 1) cs' ! k)
              (Sort_inner i (j + 1) cs' ! (length cs' - i - 1))"
    proof (rule IH)
      show "i + 1 \<le> length cs'" using "1.prems"(1) by (simp only: len)
      show "j + 1 \<le> length cs' - i - 1" using jl(3) by (simp only: len)
      show "\<forall>k<j + 1. card_le (cs' ! k) (cs' ! (j + 1))" by (rule P)
    qed
    then show ?thesis
      by (simp only: Sort_inner_step [OF True] len flip: cs'_def)
  next
    case False
    with "1.prems" have "j = length cs - i - 1" by auto
    with "1.prems"(3) False show ?thesis by (simp add: Sort_inner_stop)
  qed
qed

lemma Sort_inner_sorted:
  assumes "sorted_wrt card_le cs"
  shows "Sort_inner i j cs = cs"
  using assms
proof (induction i j cs rule: Sort_inner.induct)
  case (1 i j cs)
  show ?case
  proof (cases "int j < int (length cs) - int i - 1")
    case True
    then have "j < j + 1" "j + 1 < length cs" by auto
    with "1.prems" have le: "card_le (cs ! j) (cs ! (j + 1))"
      unfolding sorted_wrt_iff_nth_less by blast
    then have same: "(if Suit (cs ! j) > Suit (cs ! (j + 1)) \<or>
           (Suit (cs ! j) = Suit (cs ! (j + 1)) \<and> Rank (cs ! j) > Rank (cs ! (j + 1)))
        then cs[j := cs ! (j + 1), j + 1 := cs ! j] else cs) = cs"
      by (simp add: swap_iff)
    have "Sort_inner i (j + 1) cs = cs"
      using "1.IH" [OF True refl refl] "1.prems" by (simp only: same)
    then show ?thesis
      by (simp only: Sort_inner_step [OF True] same)
  next
    case False
    then show ?thesis by (simp add: Sort_inner_stop)
  qed
qed

lemma Sort_outer_sorted_id:
  assumes "sorted_wrt card_le cs"
  shows "Sort_outer i cs = cs"
  using assms
proof (induction i cs rule: Sort_outer.induct)
  case (1 i cs)
  show ?case
  proof (cases "int i < int (length cs) - 1")
    case True
    have "Sort_outer (i + 1) (Sort_inner i 0 cs) = Sort_inner i 0 cs"
      using "1.IH" [OF True] "1.prems" by (simp add: Sort_inner_sorted)
    then show ?thesis
      using True "1.prems" by (subst Sort_outer.simps) (simp add: Sort_inner_sorted)
  next
    case False
    then show ?thesis by (subst Sort_outer.simps) simp
  qed
qed

lemma mset_Sort_outer: "mset (Sort_outer i cs) = mset cs"
proof (induction i cs rule: Sort_outer.induct)
  case (1 i cs)
  show ?case
  proof (cases "int i < int (length cs) - 1")
    case True
    with "1.IH" [OF True] show ?thesis
      by (subst Sort_outer.simps) (simp add: mset_Sort_inner)
  next
    case False
    then show ?thesis by (subst Sort_outer.simps) simp
  qed
qed


lemma tail_sorted_step:
  assumes guard: "int i < int (length cs) - 1" and inv: "tail_sorted i cs"
  shows "tail_sorted (i + 1) (Sort_inner i 0 cs)"
proof -
  define r where "r = Sort_inner i 0 cs"
  define m where "m = length cs - i - 1"
  have lr: "length r = length cs" by (simp add: r_def length_Sort_inner)
  from guard have m: "m < length cs" "Suc m = length cs - i" "length cs - Suc i = m"
    by (auto simp: m_def)
  have dr: "drop (Suc m) r = drop (Suc m) cs"
    unfolding r_def m(2) by (rule drop_Sort_inner)
  have "mset (take (Suc m) r) = mset (take (Suc m) cs)"
    unfolding r_def m(2) by (rule mset_take_Sort_inner)
  then have st: "set (take (Suc m) r) = set (take (Suc m) cs)"
    by (rule mset_eq_setD)
  have mx: "\<forall>k<m. card_le (r ! k) (r ! m)"
    using max_Sort_inner [of i cs 0] guard by (simp add: r_def m_def)
  have rm: "r ! m \<in> set (take (Suc m) r)"
    using m(1) lr by (simp add: take_Suc_conv_app_nth)
  from inv have srt: "sorted_wrt card_le (drop (Suc m) cs)"
    and sep: "\<And>x y. x \<in> set (take (Suc m) cs) \<Longrightarrow> y \<in> set (drop (Suc m) cs) \<Longrightarrow> card_le x y"
    by (simp_all add: tail_sorted_def m(2))
  have dm: "drop m r = r ! m # drop (Suc m) cs"
    using m(1) lr dr by (simp add: Cons_nth_drop_Suc [symmetric])
  have "sorted_wrt card_le (drop m r)"
    using srt sep rm st by (simp add: dm)
  moreover have "\<forall>x\<in>set (take m r). \<forall>y\<in>set (drop m r). card_le x y"
  proof (intro ballI)
    fix x y assume x: "x \<in> set (take m r)" and y: "y \<in> set (drop m r)"
    from x obtain k where k: "k < m" "x = r ! k"
      using m(1) lr by (auto simp: in_set_conv_nth)
    have "set (take m r) \<subseteq> set (take (Suc m) r)"
      by (rule set_take_subset_set_take) simp
    with x st have x': "x \<in> set (take (Suc m) cs)" by auto
    from y have "y = r ! m \<or> y \<in> set (drop (Suc m) cs)" by (simp add: dm)
    then show "card_le x y"
    proof
      assume "y = r ! m"
      with k mx show ?thesis by simp
    next
      assume "y \<in> set (drop (Suc m) cs)"
      with x' show ?thesis by (rule sep)
    qed
  qed
  moreover have "i + 1 \<le> length r" using guard lr by auto
  ultimately show ?thesis
    by (simp add: tail_sorted_def lr m(3) flip: r_def)
qed

lemma tail_sorted_done:
  assumes stop: "\<not> int i < int (length cs) - 1" and inv: "tail_sorted i cs"
  shows "sorted_wrt card_le cs"
proof (cases "i = length cs")
  case True
  with inv show ?thesis by (simp add: tail_sorted_def)
next
  case False
  with stop inv have i: "length cs = Suc i" by (auto simp: tail_sorted_def)
  then obtain c cs' where cs: "cs = c # cs'" by (cases cs) auto
  with inv i show ?thesis by (simp add: tail_sorted_def)
qed

lemma Sort_outer_sorted:
  assumes "tail_sorted i cs"
  shows "sorted_wrt card_le (Sort_outer i cs)"
  using assms
proof (induction i cs rule: Sort_outer.induct)
  case (1 i cs)
  show ?case
  proof (cases "int i < int (length cs) - 1")
    case True
    have "sorted_wrt card_le (Sort_outer (i + 1) (Sort_inner i 0 cs))"
      using True "1.prems" by (intro "1.IH" tail_sorted_step)
    with True show ?thesis by (subst Sort_outer.simps) simp
  next
    case False
    from False "1.prems" have "sorted_wrt card_le cs" by (rule tail_sorted_done)
    with False show ?thesis by (subst Sort_outer.simps) simp
  qed
qed

text \<open>
  C5. After Sort the card sequence is a permutation of the sequence before the call and
  is non-decreasing in the order by suit (Spades < Hearts < Diamonds < Clubs) with ties
  broken by rank (Ace < ... < King); Sort on a deck that is already in this order
  leaves the deck as it is.
\<close>

theorem Sort_spec:
  "mset (cards (Sort d)) = mset (cards d) \<and>
   sorted_wrt card_le (cards (Sort d)) \<and>
   (sorted_wrt card_le (cards d) \<longrightarrow> Sort d = d)"
proof -
  have "tail_sorted 0 (cards d)" by (simp add: tail_sorted_def)
  then have "sorted_wrt card_le (Sort_outer 0 (cards d))" by (rule Sort_outer_sorted)
  then show ?thesis
    by (simp add: Sort_def mset_Sort_outer Sort_outer_sorted_id)
qed

theorem Sort_spec_witness:
  "sorted_wrt card_le
     [NewCard Spades Two, NewCard Hearts Ace, NewCard Hearts King, NewCard Clubs Ten] \<and>
   Sort \<lparr>cards = [NewCard Spades Two, NewCard Hearts Ace, NewCard Hearts King, NewCard Clubs Ten]\<rparr>
     = \<lparr>cards = [NewCard Spades Two, NewCard Hearts Ace, NewCard Hearts King, NewCard Clubs Ten]\<rparr> \<and>
   Sort \<lparr>cards = [NewCard Clubs Ten, NewCard Hearts King, NewCard Spades Two, NewCard Hearts Ace]\<rparr>
     = \<lparr>cards = [NewCard Spades Two, NewCard Hearts Ace, NewCard Hearts King, NewCard Clubs Ten]\<rparr>"
  using Sort_spec
    [of "\<lparr>cards = [NewCard Spades Two, NewCard Hearts Ace, NewCard Hearts King, NewCard Clubs Ten]\<rparr>"]
  by (simp add: Sort_def Sort_outer.simps Sort_inner.simps NewCard_def card_le_def)


section \<open>Shuffling permutes, and the seed decides the order\<close>

lemma lcg_Intn_in_range: "Intn_in_range lcg_Intn"
  by (simp add: Intn_in_range_def lcg_Intn_def)

lemma shuffle_loop_perm:
  assumes "Intn_in_range Intn" "i < int (length cs)"
  shows "\<exists>cs'. shuffle_loop Intn i r cs = Some cs' \<and> mset cs' = mset cs"
  using assms
proof (induction Intn i r cs rule: shuffle_loop.induct)
  case (1 Intn i r cs)
  show ?case
  proof (cases "i > 0")
    case True
    obtain j r' where jr: "Intn r (i + 1) = (j, r')" by (cases "Intn r (i + 1)")
    from "1.prems"(1) have "0 < i + 1 \<longrightarrow> 0 \<le> fst (Intn r (i + 1)) \<and> fst (Intn r (i + 1)) < i + 1"
      unfolding Intn_in_range_def by blast
    with True jr have j: "0 \<le> j" "j < i + 1" by simp_all
    with "1.prems"(2) have inr: "i < int (length cs) \<and> 0 \<le> j \<and> j < int (length cs)" by simp
    let ?cs' = "cs[nat i := cs ! nat j, nat j := cs ! nat i]"
    have "nat i < length cs" "nat j < length cs" using inr True by auto
    then have ms: "mset ?cs' = mset cs" using mset_swap [of "nat j" cs "nat i"] by simp
    have "\<exists>cs''. shuffle_loop Intn (i - 1) r' ?cs' = Some cs'' \<and> mset cs'' = mset ?cs'"
      using "1.IH" [OF True jr [symmetric] inr "1.prems"(1)] "1.prems"(2) by simp
    with ms True jr inr show ?thesis
      by (subst shuffle_loop.simps) simp
  next
    case False
    then show ?thesis by (subst shuffle_loop.simps) simp
  qed
qed

lemma shuffle_loop_Some_perm:
  assumes "shuffle_loop Intn i r cs = Some cs'"
  shows "mset cs' = mset cs"
  using assms
proof (induction Intn i r cs rule: shuffle_loop.induct)
  case (1 Intn i r cs)
  show ?case
  proof (cases "i > 0")
    case True
    obtain j r' where jr: "Intn r (i + 1) = (j, r')" by (cases "Intn r (i + 1)")
    show ?thesis
    proof (cases "i < int (length cs) \<and> 0 \<le> j \<and> j < int (length cs)")
      case inr: True
      let ?cs' = "cs[nat i := cs ! nat j, nat j := cs ! nat i]"
      have "nat i < length cs" "nat j < length cs" using inr True by auto
      then have ms: "mset ?cs' = mset cs" using mset_swap [of "nat j" cs "nat i"] by simp
      have "shuffle_loop Intn (i - 1) r' ?cs' = Some cs'"
        using "1.prems" True jr inr by (subst (asm) shuffle_loop.simps) simp
      with "1.IH" [OF True jr [symmetric] inr] ms show ?thesis by simp
    next
      case False
      with "1.prems" True jr show ?thesis by (subst (asm) shuffle_loop.simps) simp
    qed
  next
    case False
    with "1.prems" show ?thesis by (subst (asm) shuffle_loop.simps) simp
  qed
qed

text \<open>
  C6. Shuffling keeps the cards and the size: with a generator whose draws are in
  range, as those of math/rand are, Shuffle (for every clock reading) and
  ShuffleWithSeed (for every seed) return, and the card sequence after the call is a
  permutation of the sequence before it.
\<close>

theorem Shuffle_permutes:
  assumes "Intn_in_range Intn"
  shows "(\<exists>d'. Shuffle NewSource Intn now d = Some d' \<and>
               mset (cards d') = mset (cards d) \<and> Size d' = Size d) \<and>
         (\<exists>d'. ShuffleWithSeed NewSource Intn d seed = Some d' \<and>
               mset (cards d') = mset (cards d) \<and> Size d' = Size d)"
proof -
  have lt: "int (length (cards d)) - 1 < int (length (cards d))" by simp
  obtain cs1 where c1: "shuffle_loop Intn (int (length (cards d)) - 1) (NewSource now) (cards d) = Some cs1"
      "mset cs1 = mset (cards d)"
    using shuffle_loop_perm [OF assms lt] by blast
  obtain cs2 where c2: "shuffle_loop Intn (int (length (cards d)) - 1) (NewSource seed) (cards d) = Some cs2"
      "mset cs2 = mset (cards d)"
    using shuffle_loop_perm [OF assms lt] by blast
  have "Shuffle NewSource Intn now d = Some (d\<lparr>cards := cs1\<rparr>)"
    by (simp add: Shuffle_def c1)
  moreover have "ShuffleWithSeed NewSource Intn d seed = Some (d\<lparr>cards := cs2\<rparr>)"
    by (simp add: ShuffleWithSeed_def c2)
  moreover have "length cs1 = length (cards d)" "length cs2 = length (cards d)"
    using mset_eq_length [OF c1(2)] mset_eq_length [OF c2(2)] by simp_all
  ultimately show ?thesis
    using c1(2) c2(2) by (simp add: Size_def)
qed

theorem Shuffle_permutes_witness:
  "Intn_in_range lcg_Intn \<and>
   Shuffle lcg_NewSource lcg_Intn 1
     \<lparr>cards = [NewCard Hearts Ace, NewCard Clubs Ten, NewCard Spades Two, NewCard Hearts King]\<rparr>
     = Some \<lparr>cards =
         [NewCard Hearts Ace, NewCard Hearts King, NewCard Spades Two, NewCard Clubs Ten]\<rparr> \<and>
   ShuffleWithSeed lcg_NewSource lcg_Intn
     \<lparr>cards = [NewCard Hearts Ace, NewCard Clubs Ten, NewCard Spades Two, NewCard Hearts King]\<rparr> 7
     = Some \<lparr>cards =
         [NewCard Spades Two, NewCard Clubs Ten, NewCard Hearts Ace, NewCard Hearts King]\<rparr>"
  using Shuffle_permutes [OF lcg_Intn_in_range, of lcg_NewSource 1
      "\<lparr>cards = [NewCard Hearts Ace, NewCard Clubs Ten, NewCard Spades Two, NewCard Hearts King]\<rparr>" 7]
  by (simp add: lcg_Intn_in_range Shuffle_def ShuffleWithSeed_def shuffle_loop.simps
      lcg_NewSource_def lcg_Intn_def NewCard_def)

subsection \<open>Two runs of ShuffleWithSeed\<close>

lemma shuffle_loop_runs_determ:
  assumes "shuffle_loop_runs Intn i r cs res1" "shuffle_loop_runs Intn i r cs res2"
    and det: "\<forall>r n out1 out2. Intn r n out1 \<longrightarrow> Intn r n out2 \<longrightarrow> out1 = out2"
  shows "res1 = res2"
  using assms(1,2)
proof (induction arbitrary: res2 rule: shuffle_loop_runs.induct)
  case (loop_exit i r cs)
  from loop_exit.prems loop_exit.hyps show ?case
    by cases simp_all
next
  case (loop_swap i r j r' cs res)
  from loop_swap.prems show ?case
  proof cases
    case loop_exit
    with loop_swap.hyps(1) show ?thesis by simp
  next
    case (loop_swap j2 r2)
    from det loop_swap.hyps(2) loop_swap(2) have "(j, r') = (j2, r2)" by blast
    with loop_swap(4) loop_swap.IH show ?thesis by simp
  next
    case (loop_panic j2 r2)
    from det loop_swap.hyps(2) loop_panic(3) have "(j, r') = (j2, r2)" by blast
    with loop_panic(4) loop_swap.hyps(3) show ?thesis by simp
  qed
next
  case (loop_panic i r j r' cs)
  from loop_panic.prems show ?case
  proof cases
    case loop_exit
    with loop_panic.hyps(1) show ?thesis by simp
  next
    case (loop_swap j2 r2)
    from det loop_panic.hyps(2) loop_swap(2) have "(j, r') = (j2, r2)" by blast
    with loop_swap(3) loop_panic.hyps(3) show ?thesis by simp
  next
    case (loop_panic j2 r2)
    then show ?thesis by simp
  qed
qed


lemma shuffle_loop_runs_returns:
  assumes tot: "\<forall>r n. 0 < n \<longrightarrow>
        (\<exists>out. Intn r n out) \<and> (\<forall>j r'. Intn r n (j, r') \<longrightarrow> 0 \<le> j \<and> j < n)"
    and "i < int (length cs)"
  shows "\<exists>cs'. shuffle_loop_runs Intn i r cs (Some cs')"
  using assms(2)
proof (induction "nat i" arbitrary: i r cs)
  case 0
  then have "\<not> 0 < i" by simp
  then have "shuffle_loop_runs Intn i r cs (Some cs)" by (rule loop_exit)
  then show ?case by blast
next
  case (Suc k)
  then have pos: "0 < i" and k: "k = nat (i - 1)" by simp_all
  from pos have "0 < i + 1" by simp
  moreover from tot have "0 < i + 1 \<longrightarrow>
      (\<exists>out. Intn r (i + 1) out) \<and> (\<forall>j r'. Intn r (i + 1) (j, r') \<longrightarrow> 0 \<le> j \<and> j < i + 1)"
    by blast
  ultimately have ex: "\<exists>out. Intn r (i + 1) out"
    and rng: "\<forall>j r'. Intn r (i + 1) (j, r') \<longrightarrow> 0 \<le> j \<and> j < i + 1"
    by blast+
  from ex obtain out where out: "Intn r (i + 1) out" by blast
  obtain j r' where jr: "out = (j, r')" by (cases out)
  from rng out jr have j: "0 \<le> j" "j < i + 1" by blast+
  with Suc.prems have inr: "i < int (length cs) \<and> 0 \<le> j \<and> j < int (length cs)" by simp
  let ?cs' = "cs[nat i := cs ! nat j, nat j := cs ! nat i]"
  have "i - 1 < int (length ?cs')" using Suc.prems by simp
  with Suc.hyps(1) [OF k] obtain cs'' where "shuffle_loop_runs Intn (i - 1) r' ?cs' (Some cs'')"
    by blast
  with pos out jr inr have "shuffle_loop_runs Intn i r cs (Some cs'')"
    by - (rule loop_swap [where j = j and r' = r'], simp_all)
  then show ?case by blast
qed

text \<open>
  Over a generator given by functions the relation has exactly one outcome, the value
  of \<open>shuffle_loop\<close>, and likewise for \<open>ShuffleWithSeed\<close>.
\<close>

lemma shuffle_loop_runs_fun:
  "shuffle_loop_runs (\<lambda>r n out. out = Intn r n) i r cs res \<longleftrightarrow> shuffle_loop Intn i r cs = res"
proof
  assume "shuffle_loop_runs (\<lambda>r n out. out = Intn r n) i r cs res"
  then show "shuffle_loop Intn i r cs = res"
  proof (induction rule: shuffle_loop_runs.induct)
    case (loop_exit i r cs)
    then show ?case by (subst shuffle_loop.simps) simp
  next
    case (loop_swap i r j r' cs res)
    from loop_swap.hyps(2) have jr: "Intn r (i + 1) = (j, r')" by simp
    from loop_swap.hyps(1,3) loop_swap.IH show ?case
      by (subst shuffle_loop.simps) (simp add: jr)
  next
    case (loop_panic i r j r' cs)
    from loop_panic.hyps(2) have jr: "Intn r (i + 1) = (j, r')" by simp
    from loop_panic.hyps(1,3) show ?case
      by (subst shuffle_loop.simps) (auto simp: jr)
  qed
next
  assume "shuffle_loop Intn i r cs = res"
  then show "shuffle_loop_runs (\<lambda>r n out. out = Intn r n) i r cs res"
  proof (induction Intn i r cs arbitrary: res rule: shuffle_loop.induct)
    case (1 Intn i r cs)
    show ?case
    proof (cases "0 < i")
      case False
      with "1.prems" have "res = Some cs" by (subst (asm) shuffle_loop.simps) simp
      with False show ?thesis by (simp add: loop_exit)
    next
      case True
      obtain j r' where jr: "Intn r (i + 1) = (j, r')" by (cases "Intn r (i + 1)")
      show ?thesis
      proof (cases "i < int (length cs) \<and> 0 \<le> j \<and> j < int (length cs)")
        case inr: True
        have "shuffle_loop Intn (i - 1) r' (cs[nat i := cs ! nat j, nat j := cs ! nat i]) = res"
          using "1.prems" True jr inr by (subst (asm) shuffle_loop.simps) simp
        then have "shuffle_loop_runs (\<lambda>r n out. out = Intn r n) (i - 1) r'
                     (cs[nat i := cs ! nat j, nat j := cs ! nat i]) res"
          by (rule "1.IH" [OF True jr [symmetric] inr])
        with True jr inr show ?thesis
          by - (rule loop_swap [where j = j and r' = r'], simp_all)
      next
        case False
        with "1.prems" True jr have "res = None" by (subst (asm) shuffle_loop.simps) simp
        with True jr False show ?thesis
          by - (simp only:, rule loop_panic [where j = j and r' = r'], simp_all)
      qed
    qed
  qed
qed

lemma ShuffleWithSeed_runs_fun:
  "ShuffleWithSeed_runs (\<lambda>seed r. r = NewSource seed) (\<lambda>r n out. out = Intn r n) d seed res
     \<longleftrightarrow> ShuffleWithSeed NewSource Intn d seed = res"
proof
  assume "ShuffleWithSeed_runs (\<lambda>seed r. r = NewSource seed) (\<lambda>r n out. out = Intn r n) d seed res"
  then show "ShuffleWithSeed NewSource Intn d seed = res"
    by cases (simp add: ShuffleWithSeed_def shuffle_loop_runs_fun)
next
  assume "ShuffleWithSeed NewSource Intn d seed = res"
  then have res: "res = map_option (\<lambda>cs. d\<lparr>cards := cs\<rparr>)
      (shuffle_loop Intn (int (length (cards d)) - 1) (NewSource seed) (cards d))"
    by (simp add: ShuffleWithSeed_def)
  have L: "shuffle_loop_runs (\<lambda>r n out. out = Intn r n) (int (length (cards d)) - 1) (NewSource seed)
          (cards d) (shuffle_loop Intn (int (length (cards d)) - 1) (NewSource seed) (cards d))"
    by (simp add: shuffle_loop_runs_fun)
  show "ShuffleWithSeed_runs (\<lambda>seed r. r = NewSource seed) (\<lambda>r n out. out = Intn r n) d seed res"
    unfolding res by (rule run [where r = "NewSource seed", OF refl L])
qed

text \<open>
  The relation does not make runs repeatable by itself: over a generator whose draws
  are free, the same deck and the same seed have two outcomes.
\<close>

lemma ShuffleWithSeed_runs_free_choice:
  "ShuffleWithSeed_runs (\<lambda>seed r. r = ()) (\<lambda>r n (j, r'). 0 \<le> j \<and> j < n)
     \<lparr>cards = [NewCard Hearts Ace, NewCard Clubs Ten]\<rparr> 42
     (Some \<lparr>cards = [NewCard Hearts Ace, NewCard Clubs Ten]\<rparr>) \<and>
   ShuffleWithSeed_runs (\<lambda>seed r. r = ()) (\<lambda>r n (j, r'). 0 \<le> j \<and> j < n)
     \<lparr>cards = [NewCard Hearts Ace, NewCard Clubs Ten]\<rparr> 42
     (Some \<lparr>cards = [NewCard Clubs Ten, NewCard Hearts Ace]\<rparr>)"
proof -
  let ?I = "\<lambda>(r::unit) (n::int) (j::int, r'::unit). 0 \<le> j \<and> j < n"
  let ?a = "NewCard Hearts Ace" and ?b = "NewCard Clubs Ten"
  have e1: "shuffle_loop_runs ?I 0 () [?a, ?b] (Some [?a, ?b])"
    by (rule loop_exit) simp
  have e2: "shuffle_loop_runs ?I 0 () [?b, ?a] (Some [?b, ?a])"
    by (rule loop_exit) simp
  have s1: "shuffle_loop_runs ?I 1 () [?a, ?b] (Some [?a, ?b])"
    by (rule loop_swap [where j = 1 and r' = "()"]) (use e1 in simp_all)
  have s2: "shuffle_loop_runs ?I 1 () [?a, ?b] (Some [?b, ?a])"
    by (rule loop_swap [where j = 0 and r' = "()"]) (use e2 in simp_all)
  have "ShuffleWithSeed_runs (\<lambda>seed r. r = ()) ?I \<lparr>cards = [?a, ?b]\<rparr> 42
          (map_option (\<lambda>cs. \<lparr>cards = [?a, ?b]\<rparr>\<lparr>cards := cs\<rparr>) (Some [?a, ?b]))"
    by (rule run [where r = "()"]) (use s1 in simp_all)
  moreover have "ShuffleWithSeed_runs (\<lambda>seed r. r = ()) ?I \<lparr>cards = [?a, ?b]\<rparr> 42
          (map_option (\<lambda>cs. \<lparr>cards = [?a, ?b]\<rparr>\<lparr>cards := cs\<rparr>) (Some [?b, ?a]))"
    by (rule run [where r = "()"]) (use s2 in simp_all)
  ultimately show ?thesis by simp
qed

lemma lcg_generator_deterministic:
  "generator_deterministic (\<lambda>seed r. r = lcg_NewSource seed) (\<lambda>r n out. out = lcg_Intn r n)"
  by (simp add: generator_deterministic_def)

lemma lcg_generator_total_in_range:
  "generator_total_in_range (\<lambda>seed r. r = lcg_NewSource seed) (\<lambda>r n out. out = lcg_Intn r n)"
  by (simp add: generator_total_in_range_def lcg_Intn_def)

text \<open>
  C1. ShuffleWithSeed is deterministic: over every generator that is deterministic
  for its seed, any two runs with the same seed on two decks that hold equal card
  sequences end with identical outcomes, so identical resulting card sequences; and
  over every generator that is total and in range such a run exists and returns a
  deck. The outcome is a function of the deck's cards and the seed alone.
\<close>

theorem ShuffleWithSeed_deterministic:
  "(generator_deterministic NewSource Intn \<and> cards d1 = cards d2 \<and>
    ShuffleWithSeed_runs NewSource Intn d1 seed res1 \<and>
    ShuffleWithSeed_runs NewSource Intn d2 seed res2 \<longrightarrow>
      map_option cards res1 = map_option cards res2) \<and>
   (generator_total_in_range NewSource Intn \<longrightarrow>
      (\<exists>d'. ShuffleWithSeed_runs NewSource Intn d seed (Some d')))"
proof (intro conjI impI)
  assume a: "generator_deterministic NewSource Intn \<and> cards d1 = cards d2 \<and>
    ShuffleWithSeed_runs NewSource Intn d1 seed res1 \<and>
    ShuffleWithSeed_runs NewSource Intn d2 seed res2"
  then have detS: "\<And>r1 r2. NewSource seed r1 \<Longrightarrow> NewSource seed r2 \<Longrightarrow> r1 = r2"
    and detI: "\<forall>r n out1 out2. Intn r n out1 \<longrightarrow> Intn r n out2 \<longrightarrow> out1 = out2"
    unfolding generator_deterministic_def by blast+
  from a obtain r1 x1 where 1: "NewSource seed r1"
      "shuffle_loop_runs Intn (int (length (cards d1)) - 1) r1 (cards d1) x1"
      "res1 = map_option (\<lambda>cs. d1\<lparr>cards := cs\<rparr>) x1"
    by (auto elim: ShuffleWithSeed_runs.cases)
  from a obtain r2 x2 where 2: "NewSource seed r2"
      "shuffle_loop_runs Intn (int (length (cards d2)) - 1) r2 (cards d2) x2"
      "res2 = map_option (\<lambda>cs. d2\<lparr>cards := cs\<rparr>) x2"
    by (auto elim: ShuffleWithSeed_runs.cases)
  from detS 1(1) 2(1) have "r1 = r2" by blast
  with 1(2) 2(2) a have "x1 = x2"
    by (auto intro: shuffle_loop_runs_determ [OF _ _ detI])
  then show "map_option cards res1 = map_option cards res2"
    by (simp add: 1(3) 2(3) option.map_comp comp_def)
next
  assume t: "generator_total_in_range NewSource Intn"
  then obtain r where r: "NewSource seed r"
    unfolding generator_total_in_range_def by blast
  from t have tot: "\<forall>r n. 0 < n \<longrightarrow>
        (\<exists>out. Intn r n out) \<and> (\<forall>j r'. Intn r n (j, r') \<longrightarrow> 0 \<le> j \<and> j < n)"
    unfolding generator_total_in_range_def by blast
  have "int (length (cards d)) - 1 < int (length (cards d))" by simp
  from shuffle_loop_runs_returns [OF tot this] obtain cs'
    where "shuffle_loop_runs Intn (int (length (cards d)) - 1) r (cards d) (Some cs')" by blast
  with r have "ShuffleWithSeed_runs NewSource Intn d seed
                 (map_option (\<lambda>cs. d\<lparr>cards := cs\<rparr>) (Some cs'))"
    by (rule run)
  then show "\<exists>d'. ShuffleWithSeed_runs NewSource Intn d seed (Some d')" by auto
qed

theorem ShuffleWithSeed_deterministic_witness:
  "generator_deterministic (\<lambda>seed r. r = lcg_NewSource seed) (\<lambda>r n out. out = lcg_Intn r n) \<and>
   generator_total_in_range (\<lambda>seed r. r = lcg_NewSource seed) (\<lambda>r n out. out = lcg_Intn r n) \<and>
   cards \<lparr>cards = [NewCard Hearts Ace, NewCard Clubs Ten, NewCard Spades Two, NewCard Hearts King]\<rparr>
     = cards (NewDeckFromCards
         [NewCard Hearts Ace, NewCard Clubs Ten, NewCard Spades Two, NewCard Hearts King]) \<and>
   ShuffleWithSeed_runs (\<lambda>seed r. r = lcg_NewSource seed) (\<lambda>r n out. out = lcg_Intn r n)
     \<lparr>cards = [NewCard Hearts Ace, NewCard Clubs Ten, NewCard Spades Two, NewCard Hearts King]\<rparr> 42
     (Some \<lparr>cards =
        [NewCard Clubs Ten, NewCard Hearts Ace, NewCard Hearts King, NewCard Spades Two]\<rparr>) \<and>
   ShuffleWithSeed_runs (\<lambda>seed r. r = lcg_NewSource seed) (\<lambda>r n out. out = lcg_Intn r n)
     (NewDeckFromCards
        [NewCard Hearts Ace, NewCard Clubs Ten, NewCard Spades Two, NewCard Hearts King]) 42
     (Some \<lparr>cards =
        [NewCard Clubs Ten, NewCard Hearts Ace, NewCard Hearts King, NewCard Spades Two]\<rparr>)"
proof -
  let ?NS = "\<lambda>seed r. r = lcg_NewSource seed"
  let ?I = "\<lambda>r n out. out = lcg_Intn r n"
  let ?d1 = "\<lparr>cards =
    [NewCard Hearts Ace, NewCard Clubs Ten, NewCard Spades Two, NewCard Hearts King]\<rparr>"
  let ?d2 = "NewDeckFromCards
    [NewCard Hearts Ace, NewCard Clubs Ten, NewCard Spades Two, NewCard Hearts King]"
  let ?res = "Some \<lparr>cards =
    [NewCard Clubs Ten, NewCard Hearts Ace, NewCard Hearts King, NewCard Spades Two]\<rparr>"
  have det: "generator_deterministic ?NS ?I" by (rule lcg_generator_deterministic)
  have tot: "generator_total_in_range ?NS ?I" by (rule lcg_generator_total_in_range)
  have eq: "cards ?d1 = cards ?d2" by (simp add: NewDeckFromCards_def)
  have r1: "ShuffleWithSeed_runs ?NS ?I ?d1 42 ?res"
    unfolding ShuffleWithSeed_runs_fun
    by (simp add: ShuffleWithSeed_def shuffle_loop.simps lcg_NewSource_def lcg_Intn_def
        NewCard_def)
  have r2: "ShuffleWithSeed_runs ?NS ?I ?d2 42 ?res"
    unfolding ShuffleWithSeed_runs_fun
    by (simp add: ShuffleWithSeed_def shuffle_loop.simps lcg_NewSource_def lcg_Intn_def
        NewCard_def NewDeckFromCards_def)
  from ShuffleWithSeed_deterministic [of ?NS ?I ?d1 ?d2 42 ?res ?res ?d1] det tot eq r1 r2
  show ?thesis by blast
qed

end
